theory Spec2Isabelle
  imports Main
begin

section \<open>The external scanner of the Twig grammar\<close>

text \<open>
  The scanner (\<^verbatim>\<open>src/internal/tree_sitter_grammars/twig/src/scanner.c\<close>) is one C
  function, \<^verbatim>\<open>tree_sitter_twig_external_scanner_scan\<close>, driving the lexer object of
  the host parsing engine. The model follows the function block by block: whitespace
  skipping, the HTML_CONTENT block, the CONTENT block and the COMMENT block.
\<close>

subsection \<open>Token kinds\<close>

text \<open>\<^verbatim>\<open>enum TokenType { CONTENT, COMMENT, HTML_CONTENT };\<close>\<close>

datatype TokenType = CONTENT | COMMENT | HTML_CONTENT

text \<open>The value a C enumerator stands for: its position in the declaration.\<close>

fun ordinal :: "TokenType \<Rightarrow> nat" where
  "ordinal CONTENT = 0"
| "ordinal COMMENT = 1"
| "ordinal HTML_CONTENT = 2"

subsection \<open>Characters\<close>

text \<open>
  \<^verbatim>\<open>lexer->lookahead\<close> is an \<^verbatim>\<open>int32_t\<close> code point. The scanner only compares
  it with character constants, so no arithmetic can overflow and \<^typ>\<open>int\<close> models it.
\<close>

type_synonym wchar = int

definition codepoints :: "string \<Rightarrow> wchar list" where
  "codepoints s = map of_char s"

abbreviation LT_SIGN :: wchar where "LT_SIGN \<equiv> 60"     \<comment> \<open>\<^verbatim>\<open>'<'\<close>\<close>
abbreviation LBRACE :: wchar where "LBRACE \<equiv> 123"      \<comment> \<open>\<^verbatim>\<open>'{'\<close>\<close>
abbreviation RBRACE :: wchar where "RBRACE \<equiv> 125"      \<comment> \<open>\<^verbatim>\<open>'}'\<close>\<close>
abbreviation PERCENT :: wchar where "PERCENT \<equiv> 37"     \<comment> \<open>\<^verbatim>\<open>'%'\<close>\<close>
abbreviation HASH :: wchar where "HASH \<equiv> 35"           \<comment> \<open>\<^verbatim>\<open>'#'\<close>\<close>

text \<open>
  \<^verbatim>\<open>iswspace\<close> of the C library. The program never calls \<^verbatim>\<open>setlocale\<close>, so the
  "C" locale is in force, whose white-space characters are space, \<^verbatim>\<open>\t\<close>, \<^verbatim>\<open>\n\<close>,
  \<^verbatim>\<open>\v\<close>, \<^verbatim>\<open>\f\<close> and \<^verbatim>\<open>\r\<close>.
\<close>

definition iswspace :: "wchar \<Rightarrow> bool" where
  "iswspace c = (c = 32 \<or> c = 9 \<or> c = 10 \<or> c = 11 \<or> c = 12 \<or> c = 13)"

subsection \<open>The lexer\<close>

text \<open>
  Modelled from the spec: the cursor (\<^verbatim>\<open>TSLexer\<close>, declared in the host engine's
  \<^verbatim>\<open>tree_sitter/parser.h\<close>, which is not among the sources). It exposes the current
  lookahead character (0 when the input is exhausted), \<^verbatim>\<open>advance\<close>, which consumes the
  current character and takes a flag saying whether the consumed character is skipped
  (kept out of the token), and \<^verbatim>\<open>mark_end\<close>, which commits the current position as
  the exclusive end of the token. At the end of the input there is nothing to consume
  and \<^verbatim>\<open>advance\<close> leaves the lexer as it is. The scanner stores the kind it emits in
  \<^verbatim>\<open>result_symbol\<close>.
\<close>

record TSLexer =
  unread :: "wchar list"               \<comment> \<open>the input from the read position on\<close>
  position :: nat                      \<comment> \<open>number of characters consumed so far\<close>
  token_start :: nat                   \<comment> \<open>where the token begins\<close>
  token_end :: "nat option"            \<comment> \<open>the last position committed by \<^verbatim>\<open>mark_end\<close>\<close>
  result_symbol :: "TokenType option"

definition lookahead :: "TSLexer \<Rightarrow> wchar" where
  "lookahead l = (case unread l of [] \<Rightarrow> 0 | c # _ \<Rightarrow> c)"

definition lexer_advance :: "bool \<Rightarrow> TSLexer \<Rightarrow> TSLexer" where
  "lexer_advance skip l =
     (case unread l of
        [] \<Rightarrow> l
      | _ # cs \<Rightarrow>
          l\<lparr>unread := cs, position := position l + 1,
            token_start := (if skip then position l + 1 else token_start l)\<rparr>)"

definition mark_end :: "TSLexer \<Rightarrow> TSLexer" where
  "mark_end l = l\<lparr>token_end := Some (position l)\<rparr>"

text \<open>The state in which the host hands the lexer to the scanner, at the start of an input.\<close>

definition start_lexer :: "wchar list \<Rightarrow> TSLexer" where
  "start_lexer cs =
     \<lparr>unread = cs, position = 0, token_start = 0, token_end = None, result_symbol = None\<rparr>"

text \<open>
  The span of the token a successful scan emits, read off the whole input: from the
  token start to the committed end.
\<close>

definition span :: "wchar list \<Rightarrow> TSLexer \<Rightarrow> wchar list" where
  "span cs l =
     (case token_end l of
        None \<Rightarrow> []
      | Some e \<Rightarrow> take (e - token_start l) (drop (token_start l) cs))"

subsection \<open>The scan function\<close>

text \<open>\<^verbatim>\<open>static void advance(TSLexer *lexer) { lexer->advance(lexer, false); }\<close>\<close>

definition advance :: "TSLexer \<Rightarrow> TSLexer" where
  "advance l = lexer_advance False l"

text \<open>\<^verbatim>\<open>while (iswspace(lexer->lookahead)) lexer->advance(lexer, true);\<close>\<close>

function eat_whitespace :: "TSLexer \<Rightarrow> TSLexer" where
  "eat_whitespace l =
     (if iswspace (lookahead l) then eat_whitespace (lexer_advance True l) else l)"
  by pat_completeness auto
termination
  by (relation "measure (\<lambda>l. length (unread l))")
     (auto simp: lookahead_def lexer_advance_def iswspace_def split: list.splits)

text \<open>
  The loop of the HTML_CONTENT block; the flag is \<^verbatim>\<open>has_content\<close>.
\<close>

function html_loop :: "bool \<Rightarrow> TSLexer \<Rightarrow> bool \<times> TSLexer" where
  "html_loop has_content l =
     (if lookahead l \<noteq> 0 then
        if lookahead l = LT_SIGN \<or> lookahead l = LBRACE then (has_content, l)
        else html_loop True (mark_end (advance l))
      else (has_content, l))"
  by pat_completeness auto
termination
  by (relation "measure (\<lambda>(h, l). length (unread l))")
     (auto simp: lookahead_def lexer_advance_def advance_def mark_end_def split: list.splits)

text \<open>The loop of the CONTENT block.\<close>

function content_loop :: "bool \<Rightarrow> TSLexer \<Rightarrow> bool \<times> TSLexer" where
  "content_loop has_content l =
     (if lookahead l \<noteq> 0 then
        if lookahead l = LBRACE then
          (let l1 = advance l in
           if lookahead l1 = LBRACE \<or> lookahead l1 = PERCENT \<or> lookahead l1 = HASH
           then (has_content, l1)
           else content_loop True (mark_end l1))
        else if lookahead l = LT_SIGN then (has_content, l)
        else content_loop True (mark_end (advance l))
      else (has_content, l))"
  by pat_completeness auto
termination
  by (relation "measure (\<lambda>(h, l). length (unread l))")
     (auto simp: lookahead_def lexer_advance_def advance_def mark_end_def split: list.splits)

text \<open>
  The loop of the COMMENT block. It returns from the scan function with \<^verbatim>\<open>true\<close> at a
  closer; leaving the loop at the end of the input leads to the final \<^verbatim>\<open>return false\<close>.
\<close>

function comment_loop :: "TSLexer \<Rightarrow> bool \<times> TSLexer" where
  "comment_loop l =
     (if lookahead l \<noteq> 0 then
        (let l1 = mark_end l in
         if lookahead l1 = HASH then
           (let l2 = advance l1 in
            if lookahead l2 = RBRACE
            then (True, mark_end (advance (l2\<lparr>result_symbol := Some COMMENT\<rparr>)))
            else comment_loop (advance l2))
         else comment_loop (advance l1))
      else (False, l))"
  by pat_completeness auto
termination
  by (relation "measure (\<lambda>l. length (unread l))")
     (auto simp: lookahead_def lexer_advance_def advance_def mark_end_def split: list.splits)

declare eat_whitespace.simps [simp del] html_loop.simps [simp del]
  content_loop.simps [simp del] comment_loop.simps [simp del]

text \<open>
  The three blocks. Each takes the lexer as the block before it left it and returns
  whether it emitted its token. \<^verbatim>\<open>valid_symbols\<close> is the array of flags indexed by
  token kind.
\<close>

definition html_block :: "(TokenType \<Rightarrow> bool) \<Rightarrow> TSLexer \<Rightarrow> bool \<times> TSLexer" where
  "html_block valid_symbols l =
     (if valid_symbols HTML_CONTENT \<and> lookahead l \<noteq> LT_SIGN \<and> lookahead l \<noteq> LBRACE then
        (case html_loop False l of
           (True, l') \<Rightarrow> (True, l'\<lparr>result_symbol := Some HTML_CONTENT\<rparr>)
         | (False, l') \<Rightarrow> (False, l'))
      else (False, l))"

definition content_block :: "(TokenType \<Rightarrow> bool) \<Rightarrow> TSLexer \<Rightarrow> bool \<times> TSLexer" where
  "content_block valid_symbols l =
     (if valid_symbols CONTENT then
        (case content_loop False l of
           (True, l') \<Rightarrow> (True, l'\<lparr>result_symbol := Some CONTENT\<rparr>)
         | (False, l') \<Rightarrow> (False, l'))
      else (False, l))"

definition comment_block :: "TSLexer \<Rightarrow> bool \<times> TSLexer" where
  "comment_block l =
     (if lookahead l = HASH then comment_loop (advance l) else (False, l))"

definition scan :: "(TokenType \<Rightarrow> bool) \<Rightarrow> TSLexer \<Rightarrow> bool \<times> TSLexer" where
  "scan valid_symbols l0 =
     (let l = eat_whitespace l0 in
      case html_block valid_symbols l of
        (True, l1) \<Rightarrow> (True, l1)
      | (False, l1) \<Rightarrow>
          (case content_block valid_symbols l1 of
             (True, l2) \<Rightarrow> (True, l2)
           | (False, l2) \<Rightarrow> comment_block l2))"

text \<open>A requested-kinds set as the array of flags the host passes.\<close>

fun requested :: "TokenType list \<Rightarrow> TokenType \<Rightarrow> bool" where
  "requested ks k = (k \<in> set ks)"

subsection \<open>Shapes of input\<close>

text \<open>
  Predicates on the input, for stating what the scanner does with it. The first holds of
  the second character of the three delimiter openers \<^verbatim>\<open>{{\<close>, \<^verbatim>\<open>{%\<close> and \<^verbatim>\<open>{#\<close>.
\<close>

definition opens_delimiter :: "wchar \<Rightarrow> bool" where
  "opens_delimiter c = (c = LBRACE \<or> c = PERCENT \<or> c = HASH)"

text \<open>No \<^verbatim>\<open>{\<close> of the text is directly followed by \<^verbatim>\<open>{\<close>, \<^verbatim>\<open>%\<close> or \<^verbatim>\<open>#\<close>.\<close>

fun lone_braces :: "wchar list \<Rightarrow> bool" where
  "lone_braces (a # b # cs) = (\<not> (a = LBRACE \<and> opens_delimiter b) \<and> lone_braces (b # cs))"
| "lone_braces cs = True"

text \<open>The text holds a closer: a \<^verbatim>\<open>#\<close> directly followed by \<^verbatim>\<open>}\<close>.\<close>

fun has_closer :: "wchar list \<Rightarrow> bool" where
  "has_closer (a # b # cs) = ((a = HASH \<and> b = RBRACE) \<or> has_closer (b # cs))"
| "has_closer cs = False"

text \<open>
  The walk of the comment loop over the text after the opening \<^verbatim>\<open>#\<close>: a \<^verbatim>\<open>#\<close>
  followed by \<^verbatim>\<open>}\<close> is the closer it stops at; after a \<^verbatim>\<open>#\<close> followed by anything
  else it goes on behind that character; the walk ends at a NUL or at the end.
\<close>

fun finds_closer :: "wchar list \<Rightarrow> bool" where
  "finds_closer [] = False"
| "finds_closer [c] = False"
| "finds_closer (c # d # cs) =
     (if c = 0 then False
      else if c = HASH then (d = RBRACE \<or> finds_closer cs)
      else finds_closer (d # cs))"

section \<open>Facts about the lexer and the loops\<close>

lemmas lexer_ops = lookahead_def lexer_advance_def advance_def mark_end_def

lemma eat_whitespace_stop: "\<not> iswspace (lookahead l) \<Longrightarrow> eat_whitespace l = l"
  by (subst eat_whitespace.simps) simp

lemma eat_whitespace_run:
  "\<forall>c\<in>set ws. iswspace c \<Longrightarrow>
   eat_whitespace \<lparr>unread = ws @ tail, position = p, token_start = s, token_end = e,
     result_symbol = r\<rparr> =
   eat_whitespace \<lparr>unread = tail, position = p + length ws,
     token_start = (if ws = [] then s else p + length ws), token_end = e,
     result_symbol = r\<rparr>"
proof (induction ws arbitrary: p s)
  case Nil
  show ?case by simp
next
  case (Cons c cs)
  have "eat_whitespace \<lparr>unread = (c # cs) @ tail, position = p, token_start = s,
          token_end = e, result_symbol = r\<rparr> =
        eat_whitespace \<lparr>unread = cs @ tail, position = p + 1, token_start = p + 1,
          token_end = e, result_symbol = r\<rparr>"
    using Cons.prems by (subst eat_whitespace.simps) (simp add: lexer_ops)
  also have "\<dots> = eat_whitespace \<lparr>unread = tail, position = p + 1 + length cs,
          token_start = (if cs = [] then p + 1 else p + 1 + length cs), token_end = e,
          result_symbol = r\<rparr>"
    using Cons.prems by (intro Cons.IH) simp
  finally show ?case by simp
qed

lemma html_loop_stop:
  "lookahead l = 0 \<or> lookahead l = LT_SIGN \<or> lookahead l = LBRACE \<Longrightarrow>
   html_loop hc l = (hc, l)"
  by (subst html_loop.simps) auto

lemma html_loop_run:
  "\<forall>c\<in>set run. c \<noteq> 0 \<and> c \<noteq> LT_SIGN \<and> c \<noteq> LBRACE \<Longrightarrow>
   html_loop hc \<lparr>unread = run @ tail, position = p, token_start = s, token_end = e,
     result_symbol = r\<rparr> =
   html_loop (hc \<or> run \<noteq> []) \<lparr>unread = tail, position = p + length run,
     token_start = s, token_end = (if run = [] then e else Some (p + length run)),
     result_symbol = r\<rparr>"
proof (induction run arbitrary: hc p e)
  case Nil
  show ?case by simp
next
  case (Cons c cs)
  have "html_loop hc \<lparr>unread = (c # cs) @ tail, position = p, token_start = s,
          token_end = e, result_symbol = r\<rparr> =
        html_loop True \<lparr>unread = cs @ tail, position = p + 1, token_start = s,
          token_end = Some (p + 1), result_symbol = r\<rparr>"
    using Cons.prems by (subst html_loop.simps) (simp add: lexer_ops)
  also have "\<dots> = html_loop (True \<or> cs \<noteq> []) \<lparr>unread = tail, position = p + 1 + length cs,
          token_start = s,
          token_end = (if cs = [] then Some (p + 1) else Some (p + 1 + length cs)),
          result_symbol = r\<rparr>"
    using Cons.prems by (intro Cons.IH) simp
  finally show ?case by simp
qed

lemma lone_braces_snoc:
  "lone_braces cs \<Longrightarrow> \<not> opens_delimiter b \<Longrightarrow> lone_braces (cs @ [b])"
  by (induction cs rule: lone_braces.induct) auto

lemma content_loop_stop:
  "lookahead l = 0 \<or> lookahead l = LT_SIGN \<Longrightarrow> content_loop hc l = (hc, l)"
  by (subst content_loop.simps) auto

lemma content_loop_opener:
  "opens_delimiter c \<Longrightarrow>
   content_loop hc \<lparr>unread = LBRACE # c # cs, position = p, token_start = s,
     token_end = e, result_symbol = r\<rparr> =
   (hc, \<lparr>unread = c # cs, position = p + 1, token_start = s, token_end = e,
     result_symbol = r\<rparr>)"
  by (subst content_loop.simps) (auto simp: lexer_ops opens_delimiter_def)

lemma content_loop_run:
  "\<forall>c\<in>set body. c \<noteq> 0 \<and> c \<noteq> LT_SIGN \<Longrightarrow> lone_braces (body @ take 1 tail) \<Longrightarrow>
   content_loop hc \<lparr>unread = body @ tail, position = p, token_start = s, token_end = e,
     result_symbol = r\<rparr> =
   content_loop (hc \<or> body \<noteq> []) \<lparr>unread = tail, position = p + length body,
     token_start = s, token_end = (if body = [] then e else Some (p + length body)),
     result_symbol = r\<rparr>"
proof (induction body arbitrary: hc p e)
  case Nil
  show ?case by simp
next
  case (Cons c cs)
  have next_char: "c = LBRACE \<Longrightarrow> \<not> opens_delimiter (case cs @ tail of [] \<Rightarrow> 0 | d # _ \<Rightarrow> d)"
    using Cons.prems(2) by (cases cs; cases tail) (auto simp: opens_delimiter_def)
  have rest: "lone_braces (cs @ take 1 tail)"
    using Cons.prems(2) by (cases "cs @ take 1 tail") auto
  have "content_loop hc \<lparr>unread = (c # cs) @ tail, position = p, token_start = s,
          token_end = e, result_symbol = r\<rparr> =
        content_loop True \<lparr>unread = cs @ tail, position = p + 1, token_start = s,
          token_end = Some (p + 1), result_symbol = r\<rparr>"
    using Cons.prems(1) next_char
    by (subst content_loop.simps) (auto simp: lexer_ops opens_delimiter_def Let_def)
  also have "\<dots> = content_loop (True \<or> cs \<noteq> []) \<lparr>unread = tail,
          position = p + 1 + length cs, token_start = s,
          token_end = (if cs = [] then Some (p + 1) else Some (p + 1 + length cs)),
          result_symbol = r\<rparr>"
    using Cons.prems(1) rest by (intro Cons.IH) simp_all
  finally show ?case by simp
qed

lemma html_loop_True: "fst (html_loop True l) = True"
  by (induction "True" l rule: html_loop.induct) (subst html_loop.simps, simp)

lemma content_loop_True: "fst (content_loop True l) = True"
  by (induction "True" l rule: content_loop.induct)
     (subst content_loop.simps, simp add: Let_def)

lemma html_loop_position:
  "position l \<le> position (snd (html_loop hc l)) \<and>
   fst (html_loop hc l) = (hc \<or> position l < position (snd (html_loop hc l)))"
proof (induction hc l rule: html_loop.induct)
  case (1 hc l)
  show ?case
  proof (cases "lookahead l \<noteq> 0 \<and> lookahead l \<noteq> LT_SIGN \<and> lookahead l \<noteq> LBRACE")
    case True
    then have step: "html_loop hc l = html_loop True (mark_end (advance l))"
      by (subst html_loop.simps) simp
    from True have "position (mark_end (advance l)) = position l + 1"
      by (auto simp: lexer_ops split: list.splits)
    with 1 True step show ?thesis by auto
  next
    case False
    then have "html_loop hc l = (hc, l)" by (intro html_loop_stop) auto
    then show ?thesis by simp
  qed
qed

lemma html_loop_result: "result_symbol (snd (html_loop hc l)) = result_symbol l"
proof (induction hc l rule: html_loop.induct)
  case (1 hc l)
  show ?case
    by (subst html_loop.simps) (use 1 in \<open>auto simp: lexer_ops split: list.splits\<close>)
qed

lemma content_loop_result: "result_symbol (snd (content_loop hc l)) = result_symbol l"
proof (induction hc l rule: content_loop.induct)
  case (1 hc l)
  show ?case
    by (subst content_loop.simps)
       (use 1 in \<open>auto simp: lexer_ops Let_def split: list.splits\<close>)
qed

lemma comment_loop_result:
  "result_symbol (snd (comment_loop l)) =
   (if fst (comment_loop l) then Some COMMENT else result_symbol l)"
proof (induction l rule: comment_loop.induct)
  case (1 l)
  show ?case
    by (subst (1 2) comment_loop.simps)
       (use 1 in \<open>auto simp: lexer_ops Let_def split: list.splits\<close>)
qed

lemma has_closer_Cons: "has_closer cs \<Longrightarrow> has_closer (a # cs)"
  by (cases cs) auto

lemma has_closer_tl: "has_closer (tl cs) \<Longrightarrow> has_closer cs"
  by (cases cs) (auto intro: has_closer_Cons)

lemma comment_loop_stop: "lookahead l = 0 \<Longrightarrow> comment_loop l = (False, l)"
  by (subst comment_loop.simps) simp

lemma comment_loop_no_closer:
  "\<not> has_closer (unread l) \<Longrightarrow> fst (comment_loop l) = False"
proof (induction "length (unread l)" arbitrary: l rule: less_induct)
  case less
  show ?case
  proof (cases "unread l")
    case Nil
    then have "comment_loop l = (False, l)"
      by (intro comment_loop_stop) (simp add: lookahead_def)
    then show ?thesis by simp
  next
    case (Cons a cs)
    show ?thesis
    proof (cases "a = 0")
      case True
      with Cons have "comment_loop l = (False, l)"
        by (intro comment_loop_stop) (simp add: lookahead_def)
      then show ?thesis by simp
    next
      case nonzero: False
      show ?thesis
      proof (cases "a = HASH")
        case False
        with Cons nonzero have step: "comment_loop l = comment_loop (advance (mark_end l))"
          by (subst comment_loop.simps) (simp add: lexer_ops Let_def)
        have "unread (advance (mark_end l)) = cs"
          using Cons by (simp add: lexer_ops)
        moreover have "\<not> has_closer cs"
          using less.prems Cons has_closer_Cons [of cs a] by auto
        ultimately have "fst (comment_loop (advance (mark_end l))) = False"
          using Cons by (intro less.hyps) simp_all
        with step show ?thesis by simp
      next
        case True
        have no_rbrace: "lookahead (advance (mark_end l)) \<noteq> RBRACE"
          using less.prems Cons True by (cases cs) (auto simp: lexer_ops)
        with Cons nonzero True
        have step: "comment_loop l = comment_loop (advance (advance (mark_end l)))"
          by (subst comment_loop.simps) (simp add: lexer_ops Let_def)
        have "unread (advance (advance (mark_end l))) = tl cs"
          using Cons by (cases cs) (simp_all add: lexer_ops)
        moreover have "\<not> has_closer (tl cs)"
          using less.prems Cons has_closer_Cons [of cs a] has_closer_tl [of cs] by auto
        ultimately have "fst (comment_loop (advance (advance (mark_end l)))) = False"
          using Cons by (intro less.hyps) simp_all
        with step show ?thesis by simp
      qed
    qed
  qed
qed

lemma comment_loop_closer:
  "comment_loop \<lparr>unread = HASH # RBRACE # tail, position = p, token_start = s,
     token_end = e, result_symbol = r\<rparr> =
   (True, \<lparr>unread = tail, position = p + 2, token_start = s, token_end = Some (p + 2),
     result_symbol = Some COMMENT\<rparr>)"
  by (subst comment_loop.simps) (simp add: lexer_ops Let_def)

lemma comment_loop_run:
  "\<forall>c\<in>set body. c \<noteq> 0 \<and> c \<noteq> HASH \<Longrightarrow>
   comment_loop \<lparr>unread = body @ tail, position = p, token_start = s, token_end = e,
     result_symbol = r\<rparr> =
   comment_loop \<lparr>unread = tail, position = p + length body, token_start = s,
     token_end = (if body = [] then e else Some (p + length body - 1)),
     result_symbol = r\<rparr>"
proof (induction body arbitrary: p e)
  case Nil
  show ?case by simp
next
  case (Cons c cs)
  have "comment_loop \<lparr>unread = (c # cs) @ tail, position = p, token_start = s,
          token_end = e, result_symbol = r\<rparr> =
        comment_loop \<lparr>unread = cs @ tail, position = p + 1, token_start = s,
          token_end = Some p, result_symbol = r\<rparr>"
    using Cons.prems by (subst comment_loop.simps) (simp add: lexer_ops Let_def)
  also have "\<dots> = comment_loop \<lparr>unread = tail, position = p + 1 + length cs,
          token_start = s,
          token_end = (if cs = [] then Some p else Some (p + 1 + length cs - 1)),
          result_symbol = r\<rparr>"
    using Cons.prems by (intro Cons.IH) simp
  finally show ?case by simp
qed

subsection \<open>The three blocks and the scan function\<close>


lemma html_block_declines: "\<not> fst (html_block valid l) \<Longrightarrow> snd (html_block valid l) = l"
proof (cases "valid HTML_CONTENT \<and> lookahead l \<noteq> LT_SIGN \<and> lookahead l \<noteq> LBRACE")
  case False
  then show ?thesis by (auto simp: html_block_def)
next
  case guard: True
  assume declines: "\<not> fst (html_block valid l)"
  show ?thesis
  proof (cases "lookahead l = 0")
    case True
    then have "html_loop False l = (False, l)" by (intro html_loop_stop) simp
    with guard show ?thesis by (simp add: html_block_def)
  next
    case False
    with guard have "html_loop False l = html_loop True (mark_end (advance l))"
      by (subst html_loop.simps) simp
    then have "fst (html_loop False l)" by (simp add: html_loop_True)
    with guard declines show ?thesis
      by (auto simp: html_block_def split: prod.splits bool.splits)
  qed
qed

lemma html_block_emits:
  "fst (html_block valid l) \<Longrightarrow>
   valid HTML_CONTENT \<and> result_symbol (snd (html_block valid l)) = Some HTML_CONTENT"
  by (auto simp: html_block_def split: if_splits prod.splits bool.splits)

lemma html_block_consumes:
  "fst (html_block valid l) = (position l < position (snd (html_block valid l)))"
  using html_loop_position [of l False]
  by (auto simp: html_block_def split: prod.splits bool.splits)

lemma content_block_emits:
  "fst (content_block valid l) \<Longrightarrow>
   valid CONTENT \<and> result_symbol (snd (content_block valid l)) = Some CONTENT"
  by (auto simp: content_block_def split: if_splits prod.splits bool.splits)

lemma content_block_declines_result:
  "\<not> fst (content_block valid l) \<Longrightarrow>
   result_symbol (snd (content_block valid l)) = result_symbol l"
  using content_loop_result [of False l]
  by (auto simp: content_block_def split: if_splits prod.splits bool.splits)

lemma content_block_declines:
  "\<not> fst (content_block valid l) \<Longrightarrow>
   snd (content_block valid l) =
     (if valid CONTENT \<and> lookahead l = LBRACE \<and> opens_delimiter (lookahead (advance l))
      then advance l else l)"
proof (cases "valid CONTENT")
  case False
  then show ?thesis by (simp add: content_block_def)
next
  case requested: True
  assume declines: "\<not> fst (content_block valid l)"
  have loop: "content_block valid l = content_loop False l"
    using requested declines
    by (auto simp: content_block_def split: prod.splits bool.splits)
  consider (stop) "lookahead l = 0 \<or> lookahead l = LT_SIGN"
    | (opener) "lookahead l = LBRACE" "opens_delimiter (lookahead (advance l))"
    | (lone) "lookahead l = LBRACE" "\<not> opens_delimiter (lookahead (advance l))"
    | (plain) "lookahead l \<noteq> 0" "lookahead l \<noteq> LT_SIGN" "lookahead l \<noteq> LBRACE"
    by blast
  then show ?thesis
  proof cases
    case stop
    then have "content_loop False l = (False, l)" by (rule content_loop_stop)
    with loop stop show ?thesis by auto
  next
    case opener
    then have "content_loop False l = (False, advance l)"
      by (subst content_loop.simps) (simp add: Let_def opens_delimiter_def)
    with loop opener requested show ?thesis by simp
  next
    case lone
    then have "content_loop False l = content_loop True (mark_end (advance l))"
      by (subst content_loop.simps) (simp add: Let_def opens_delimiter_def lookahead_def mark_end_def)
    then have "fst (content_loop False l)" by (simp add: content_loop_True)
    with loop declines show ?thesis by simp
  next
    case plain
    then have "content_loop False l = content_loop True (mark_end (advance l))"
      by (subst content_loop.simps) simp
    then have "fst (content_loop False l)" by (simp add: content_loop_True)
    with loop declines show ?thesis by simp
  qed
qed

lemma comment_block_result:
  "result_symbol (snd (comment_block l)) =
   (if fst (comment_block l) then Some COMMENT else result_symbol l)"
  using comment_loop_result [of "advance l"]
  by (auto simp: comment_block_def lexer_ops split: list.splits)

lemma scan_cases:
  "scan valid l0 =
   (if fst (html_block valid (eat_whitespace l0)) then html_block valid (eat_whitespace l0)
    else if fst (content_block valid (eat_whitespace l0))
      then content_block valid (eat_whitespace l0)
    else comment_block (snd (content_block valid (eat_whitespace l0))))"
proof (cases "fst (html_block valid (eat_whitespace l0))")
  case True
  then show ?thesis
    by (cases "html_block valid (eat_whitespace l0)") (simp add: scan_def)
next
  case False
  then have same: "snd (html_block valid (eat_whitespace l0)) = eat_whitespace l0"
    by (rule html_block_declines)
  with False have "html_block valid (eat_whitespace l0) = (False, eat_whitespace l0)"
    by (cases "html_block valid (eat_whitespace l0)") simp
  with False show ?thesis
    by (cases "content_block valid (eat_whitespace l0)")
       (auto simp: scan_def)
qed

lemma eat_whitespace_start:
  assumes "\<forall>c\<in>set ws. iswspace c" and "tail = [] \<or> \<not> iswspace (hd tail)"
  shows "eat_whitespace (start_lexer (ws @ tail)) =
    \<lparr>unread = tail, position = length ws, token_start = length ws, token_end = None,
      result_symbol = None\<rparr>"
proof -
  have "\<not> iswspace (lookahead \<lparr>unread = tail, position = length ws,
      token_start = length ws, token_end = None, result_symbol = None\<rparr>)"
    using assms(2) by (cases tail) (auto simp: lookahead_def iswspace_def)
  then have "eat_whitespace \<lparr>unread = tail, position = length ws,
      token_start = length ws, token_end = None, result_symbol = None\<rparr> =
    \<lparr>unread = tail, position = length ws, token_start = length ws, token_end = None,
      result_symbol = None\<rparr>"
    by (rule eat_whitespace_stop)
  moreover have "eat_whitespace (start_lexer (ws @ tail)) =
    eat_whitespace \<lparr>unread = tail, position = length ws,
      token_start = length ws, token_end = None, result_symbol = None\<rparr>"
    using eat_whitespace_run [OF assms(1), of tail 0 0 None None]
    by (simp add: start_lexer_def)
  ultimately show ?thesis by simp
qed

lemma span_token:
  "span (ws @ body @ rest) \<lparr>unread = u, position = p, token_start = length ws,
     token_end = Some (length ws + length body), result_symbol = r\<rparr> = body"
  by (simp add: span_def)

lemma html_block_run:
  assumes "valid HTML_CONTENT" and "run \<noteq> []"
    and "\<forall>c\<in>set run. c \<noteq> 0 \<and> c \<noteq> LT_SIGN \<and> c \<noteq> LBRACE"
    and "tail = [] \<or> hd tail = 0 \<or> hd tail = LT_SIGN \<or> hd tail = LBRACE"
  shows "html_block valid \<lparr>unread = run @ tail, position = p, token_start = s,
      token_end = e, result_symbol = r\<rparr> =
    (True, \<lparr>unread = tail, position = p + length run, token_start = s,
      token_end = Some (p + length run), result_symbol = Some HTML_CONTENT\<rparr>)"
proof -
  let ?l = "\<lparr>unread = run @ tail, position = p, token_start = s,
      token_end = e, result_symbol = r\<rparr>"
  let ?l' = "\<lparr>unread = tail, position = p + length run, token_start = s,
      token_end = Some (p + length run), result_symbol = r\<rparr>"
  have guard: "lookahead ?l \<noteq> LT_SIGN \<and> lookahead ?l \<noteq> LBRACE"
    using assms(2,3) by (cases run) (auto simp: lookahead_def)
  have "lookahead ?l' = 0 \<or> lookahead ?l' = LT_SIGN \<or> lookahead ?l' = LBRACE"
    using assms(4) by (cases tail) (auto simp: lookahead_def)
  then have "html_loop True ?l' = (True, ?l')" by (rule html_loop_stop)
  then have "html_loop False ?l = (True, ?l')"
    using html_loop_run [OF assms(3), of False tail p s e r] assms(2) by simp
  with guard assms(1) show ?thesis by (simp add: html_block_def)
qed

lemma scan_never_html:
  assumes "\<not> fst (html_block valid (eat_whitespace l))"
    and "result_symbol (eat_whitespace l) \<noteq> Some HTML_CONTENT"
  shows "result_symbol (snd (scan valid l)) \<noteq> Some HTML_CONTENT"
proof (cases "fst (content_block valid (eat_whitespace l))")
  case True
  then have "result_symbol (snd (content_block valid (eat_whitespace l))) = Some CONTENT"
    using content_block_emits by blast
  with assms(1) True show ?thesis by (simp add: scan_cases)
next
  case False
  then have "result_symbol (snd (content_block valid (eat_whitespace l))) =
      result_symbol (eat_whitespace l)"
    by (rule content_block_declines_result)
  with assms False show ?thesis
    by (simp add: scan_cases comment_block_result)
qed

lemma content_block_run:
  assumes "valid CONTENT" and "body \<noteq> []"
    and "\<forall>c\<in>set body. c \<noteq> 0 \<and> c \<noteq> LT_SIGN"
    and "lone_braces (body @ take 1 tail)"
    and "content_loop True \<lparr>unread = tail, position = p + length body, token_start = s,
      token_end = Some (p + length body), result_symbol = r\<rparr> = (True, l')"
  shows "content_block valid \<lparr>unread = body @ tail, position = p, token_start = s,
      token_end = e, result_symbol = r\<rparr> =
    (True, l'\<lparr>result_symbol := Some CONTENT\<rparr>)"
  using content_loop_run [OF assms(3,4), of False p s e r] assms(1,2,5)
  by (simp add: content_block_def)

lemma html_block_not_applicable:
  "\<not> valid HTML_CONTENT \<or> lookahead l = LBRACE \<Longrightarrow> html_block valid l = (False, l)"
  by (auto simp: html_block_def)

lemma content_loop_position:
  "position l \<le> position (snd (content_loop hc l)) \<and>
   (fst (content_loop hc l) \<longrightarrow> hc \<or> position l < position (snd (content_loop hc l)))"
proof (induction hc l rule: content_loop.induct)
  case (1 hc l)
  consider (stop) "lookahead l = 0 \<or> lookahead l = LT_SIGN"
    | (opener) "lookahead l = LBRACE" "opens_delimiter (lookahead (advance l))"
    | (lone) "lookahead l = LBRACE" "\<not> opens_delimiter (lookahead (advance l))"
    | (plain) "lookahead l \<noteq> 0" "lookahead l \<noteq> LT_SIGN" "lookahead l \<noteq> LBRACE"
    by blast
  then show ?case
  proof cases
    case stop
    then have "content_loop hc l = (hc, l)" by (rule content_loop_stop)
    then show ?thesis by simp
  next
    case opener
    then have "content_loop hc l = (hc, advance l)"
      by (subst content_loop.simps) (simp add: Let_def opens_delimiter_def)
    then show ?thesis by (simp add: lexer_ops split: list.splits)
  next
    case lone
    then have step: "content_loop hc l = content_loop True (mark_end (advance l))"
      by (subst content_loop.simps)
         (simp add: Let_def opens_delimiter_def lookahead_def mark_end_def)
    from lone have pos: "position (mark_end (advance l)) = position l + 1"
      by (auto simp: lexer_ops split: list.splits)
    from lone have "position (mark_end (advance l))
        \<le> position (snd (content_loop True (mark_end (advance l))))"
      using "1.IH"(1) [of "advance l"] by (simp add: opens_delimiter_def)
    with step pos show ?thesis by simp
  next
    case plain
    then have step: "content_loop hc l = content_loop True (mark_end (advance l))"
      by (subst content_loop.simps) simp
    from plain have pos: "position (mark_end (advance l)) = position l + 1"
      by (auto simp: lexer_ops split: list.splits)
    from plain have "position (mark_end (advance l))
        \<le> position (snd (content_loop True (mark_end (advance l))))"
      using "1.IH"(2) by simp
    with step pos show ?thesis by simp
  qed
qed

lemma content_block_consumes:
  "fst (content_block valid l) \<Longrightarrow> position l < position (snd (content_block valid l))"
  using content_loop_position [of l False]
  by (auto simp: content_block_def split: if_splits prod.splits bool.splits)

lemma html_block_plain:
  assumes "valid HTML_CONTENT" and "lookahead l \<noteq> 0"
    and "lookahead l \<noteq> LT_SIGN" and "lookahead l \<noteq> LBRACE"
  shows "fst (html_block valid l)"
proof -
  from assms have "html_loop False l = html_loop True (mark_end (advance l))"
    by (subst html_loop.simps) simp
  then have "fst (html_loop False l)" by (simp add: html_loop_True)
  with assms show ?thesis
    by (auto simp: html_block_def split: prod.splits bool.splits)
qed

lemma scan_ignores_comment_flag: "scan (valid(COMMENT := b)) l = scan valid l"
proof -
  have html: "html_block (valid(COMMENT := b)) = html_block valid"
    by (rule ext) (simp add: html_block_def)
  have content: "content_block (valid(COMMENT := b)) = content_block valid"
    by (rule ext) (simp add: content_block_def)
  show ?thesis unfolding scan_def html content by (rule refl)
qed

lemma comment_block_no_closer:
  assumes "\<not> has_closer body"
  shows "comment_block \<lparr>unread = HASH # body, position = p, token_start = s,
      token_end = e, result_symbol = r\<rparr> =
    (False, snd (comment_loop \<lparr>unread = body, position = p + 1, token_start = s,
      token_end = e, result_symbol = r\<rparr>))"
proof -
  let ?l = "\<lparr>unread = body, position = p + 1, token_start = s,
      token_end = e, result_symbol = r\<rparr>"
  have "fst (comment_loop ?l) = False"
    using assms by (intro comment_loop_no_closer) simp
  then have "comment_loop ?l = (False, snd (comment_loop ?l))"
    by (cases "comment_loop ?l") simp
  then show ?thesis by (simp add: comment_block_def lexer_ops)
qed

lemma scan_hash_no_closer:
  assumes "\<not> has_closer body"
  shows "\<not> (fst (scan v (start_lexer (HASH # body))) \<and>
    result_symbol (snd (scan v (start_lexer (HASH # body)))) = Some COMMENT)"
proof -
  let ?l = "\<lparr>unread = HASH # body, position = 0, token_start = 0, token_end = None,
      result_symbol = None :: TokenType option\<rparr>"
  have ws: "eat_whitespace (start_lexer (HASH # body)) = ?l"
    using eat_whitespace_start [of "[]" "HASH # body"] by (simp add: iswspace_def)
  consider (html) "fst (html_block v ?l)"
    | (content) "\<not> fst (html_block v ?l)" "fst (content_block v ?l)"
    | (comment) "\<not> fst (html_block v ?l)" "\<not> fst (content_block v ?l)"
    by blast
  then show ?thesis
  proof cases
    case html
    then show ?thesis using html_block_emits [of v ?l] by (simp add: scan_cases ws)
  next
    case content
    then show ?thesis using content_block_emits [of v ?l] by (simp add: scan_cases ws)
  next
    case comment
    then have "snd (content_block v ?l) = ?l"
      using content_block_declines [of v ?l] by (simp add: lookahead_def)
    with comment have "scan v (start_lexer (HASH # body)) = comment_block ?l"
      by (simp add: scan_cases ws)
    then show ?thesis using comment_block_no_closer [OF assms, of 0 0 None None] by simp
  qed
qed

lemma comment_loop_emits:
  "fst (comment_loop l) \<Longrightarrow> result_symbol (snd (comment_loop l)) = Some COMMENT"
  by (simp add: comment_loop_result)

lemma scan_brace_hash:
  assumes "\<forall>c\<in>set ws. iswspace c"
  shows "scan valid (start_lexer (ws @ LBRACE # HASH # rest)) =
    (if valid CONTENT
     then comment_loop \<lparr>unread = rest, position = length ws + 2, token_start = length ws,
       token_end = None, result_symbol = None\<rparr>
     else (False, \<lparr>unread = LBRACE # HASH # rest, position = length ws,
       token_start = length ws, token_end = None, result_symbol = None\<rparr>))"
proof -
  let ?l = "\<lparr>unread = LBRACE # HASH # rest, position = length ws,
      token_start = length ws, token_end = None, result_symbol = None :: TokenType option\<rparr>"
  let ?l1 = "\<lparr>unread = HASH # rest, position = length ws + 1,
      token_start = length ws, token_end = None, result_symbol = None :: TokenType option\<rparr>"
  have ws: "eat_whitespace (start_lexer (ws @ LBRACE # HASH # rest)) = ?l"
    by (rule eat_whitespace_start [OF assms]) (simp add: iswspace_def)
  have html: "html_block valid ?l = (False, ?l)"
    by (rule html_block_not_applicable) (simp add: lookahead_def)
  show ?thesis
  proof (cases "valid CONTENT")
    case True
    have "content_loop False ?l = (False, ?l1)"
      by (rule content_loop_opener) (simp add: opens_delimiter_def)
    with True have content: "content_block valid ?l = (False, ?l1)"
      by (simp add: content_block_def)
    have "comment_block ?l1 = comment_loop \<lparr>unread = rest, position = length ws + 2,
        token_start = length ws, token_end = None, result_symbol = None\<rparr>"
      by (simp add: comment_block_def lexer_ops)
    with True show ?thesis by (simp add: scan_def ws html content)
  next
    case False
    then have content: "content_block valid ?l = (False, ?l)"
      by (simp add: content_block_def)
    have "comment_block ?l = (False, ?l)"
      by (simp add: comment_block_def lookahead_def)
    with False show ?thesis by (simp add: scan_def ws html content)
  qed
qed

lemma comment_loop_body_closer:
  assumes "\<forall>c\<in>set body. c \<noteq> 0 \<and> c \<noteq> HASH"
  shows "comment_loop \<lparr>unread = body @ HASH # RBRACE # tail, position = p,
      token_start = s, token_end = e, result_symbol = r\<rparr> =
    (True, \<lparr>unread = tail, position = p + length body + 2, token_start = s,
      token_end = Some (p + length body + 2), result_symbol = Some COMMENT\<rparr>)"
  using comment_loop_run [OF assms, of "HASH # RBRACE # tail" p s e r]
  by (simp add: comment_loop_closer)

lemma html_loop_token_start: "token_start (snd (html_loop hc l)) = token_start l"
proof (induction hc l rule: html_loop.induct)
  case (1 hc l)
  show ?case
    by (subst html_loop.simps) (use 1 in \<open>auto simp: lexer_ops split: list.splits\<close>)
qed

lemma html_block_token_start: "token_start (snd (html_block valid l)) = token_start l"
  using html_loop_token_start [of False l]
  by (auto simp: html_block_def split: prod.splits bool.splits)

lemma content_loop_marks:
  "\<forall>e. token_end l = Some e \<longrightarrow> e \<le> position l \<Longrightarrow>
   token_end (snd (content_loop hc l)) = token_end l \<and> fst (content_loop hc l) = hc \<or>
   (\<exists>e. token_end (snd (content_loop hc l)) = Some e \<and> position l < e) \<and>
     fst (content_loop hc l)"
proof (induction hc l rule: content_loop.induct)
  case (1 hc l)
  consider (stop) "lookahead l = 0 \<or> lookahead l = LT_SIGN"
    | (opener) "lookahead l = LBRACE" "opens_delimiter (lookahead (advance l))"
    | (lone) "lookahead l = LBRACE" "\<not> opens_delimiter (lookahead (advance l))"
    | (plain) "lookahead l \<noteq> 0" "lookahead l \<noteq> LT_SIGN" "lookahead l \<noteq> LBRACE"
    by blast
  then show ?case
  proof cases
    case stop
    then have "content_loop hc l = (hc, l)" by (rule content_loop_stop)
    then show ?thesis by simp
  next
    case opener
    then have "content_loop hc l = (hc, advance l)"
      by (subst content_loop.simps) (simp add: Let_def opens_delimiter_def)
    then show ?thesis by (simp add: lexer_ops split: list.splits)
  next
    case lone
    then have step: "content_loop hc l = content_loop True (mark_end (advance l))"
      by (subst content_loop.simps)
         (simp add: Let_def opens_delimiter_def lookahead_def mark_end_def)
    from lone have pos: "position (mark_end (advance l)) = position l + 1"
      and mark: "token_end (mark_end (advance l)) = Some (position l + 1)"
      by (auto simp: lexer_ops split: list.splits)
    have "token_end (snd (content_loop True (mark_end (advance l)))) =
        token_end (mark_end (advance l)) \<and>
        fst (content_loop True (mark_end (advance l))) = True \<or>
      (\<exists>e. token_end (snd (content_loop True (mark_end (advance l)))) = Some e \<and>
        position (mark_end (advance l)) < e) \<and>
        fst (content_loop True (mark_end (advance l)))"
      using lone pos mark by (intro "1.IH"(1) [of "advance l"]) (simp_all add: opens_delimiter_def)
    with step pos mark show ?thesis by auto
  next
    case plain
    then have step: "content_loop hc l = content_loop True (mark_end (advance l))"
      by (subst content_loop.simps) simp
    from plain have pos: "position (mark_end (advance l)) = position l + 1"
      and mark: "token_end (mark_end (advance l)) = Some (position l + 1)"
      by (auto simp: lexer_ops split: list.splits)
    have "token_end (snd (content_loop True (mark_end (advance l)))) =
        token_end (mark_end (advance l)) \<and>
        fst (content_loop True (mark_end (advance l))) = True \<or>
      (\<exists>e. token_end (snd (content_loop True (mark_end (advance l)))) = Some e \<and>
        position (mark_end (advance l)) < e) \<and>
        fst (content_loop True (mark_end (advance l)))"
      using plain pos mark by (intro "1.IH"(2)) simp_all
    with step pos mark show ?thesis by auto
  qed
qed

lemma content_block_marks:
  assumes "token_end l = None"
  shows "fst (content_block valid l) =
    (valid CONTENT \<and> token_end (snd (content_block valid l)) \<noteq> None)"
proof (cases "valid CONTENT")
  case False
  then show ?thesis using assms by (simp add: content_block_def)
next
  case True
  have "token_end (snd (content_loop False l)) = token_end l \<and>
      fst (content_loop False l) = False \<or>
    (\<exists>e. token_end (snd (content_loop False l)) = Some e \<and> position l < e) \<and>
      fst (content_loop False l)"
    using assms by (intro content_loop_marks) simp
  then show ?thesis
    using True assms
    by (cases "content_loop False l") (auto simp: content_block_def split: bool.splits)
qed

lemma comment_loop_finds_closer: "fst (comment_loop l) = finds_closer (unread l)"
proof (induction "length (unread l)" arbitrary: l rule: less_induct)
  case less
  show ?case
  proof (cases "unread l")
    case Nil
    then have "comment_loop l = (False, l)"
      by (intro comment_loop_stop) (simp add: lookahead_def)
    with Nil show ?thesis by simp
  next
    case (Cons a cs)
    show ?thesis
    proof (cases "a = 0")
      case True
      with Cons have "comment_loop l = (False, l)"
        by (intro comment_loop_stop) (simp add: lookahead_def)
      with Cons True show ?thesis by (cases cs) simp_all
    next
      case nonzero: False
      show ?thesis
      proof (cases "a = HASH")
        case False
        with Cons nonzero have step: "comment_loop l = comment_loop (advance (mark_end l))"
          by (subst comment_loop.simps) (simp add: lexer_ops Let_def)
        have rest: "unread (advance (mark_end l)) = cs"
          using Cons by (simp add: lexer_ops)
        then have "fst (comment_loop (advance (mark_end l))) = finds_closer cs"
          using Cons less.hyps [of "advance (mark_end l)"] by simp
        moreover have "finds_closer (a # cs) = finds_closer cs"
          using nonzero False by (cases cs) simp_all
        ultimately show ?thesis using step Cons by simp
      next
        case hash: True
        show ?thesis
        proof (cases cs)
          case Nil
          with Cons hash have "comment_loop l = comment_loop (advance (advance (mark_end l)))"
            by (subst comment_loop.simps) (simp add: lexer_ops Let_def)
          moreover from Cons Nil have "lookahead (advance (advance (mark_end l))) = 0"
            by (simp add: lexer_ops)
          ultimately have "fst (comment_loop l) = False"
            by (simp add: comment_loop_stop)
          with Cons Nil show ?thesis by simp
        next
          case inner: (Cons d ds)
          show ?thesis
          proof (cases "d = RBRACE")
            case True
            with Cons hash inner have "fst (comment_loop l)"
              by (subst comment_loop.simps) (simp add: lexer_ops Let_def)
            with Cons hash inner True show ?thesis by simp
          next
            case False
            with Cons hash inner
            have step: "comment_loop l = comment_loop (advance (advance (mark_end l)))"
              by (subst comment_loop.simps) (simp add: lexer_ops Let_def)
            have rest: "unread (advance (advance (mark_end l))) = ds"
              using Cons inner by (simp add: lexer_ops)
            then have "fst (comment_loop (advance (advance (mark_end l)))) = finds_closer ds"
              using Cons inner less.hyps [of "advance (advance (mark_end l))"] by simp
            with step Cons hash inner False show ?thesis by simp
          qed
        qed
      qed
    qed
  qed
qed

text \<open>
  An input that, behind the white space, begins with \<^verbatim>\<open>{#\<close>: COMMENT is emitted
  exactly when CONTENT is requested and the walk of the comment loop over what follows
  comes to a closer.
\<close>

lemma scan_brace_hash_comment:
  assumes "\<forall>c\<in>set ws. iswspace c"
  shows "(fst (scan valid (start_lexer (ws @ LBRACE # HASH # rest))) \<and>
      result_symbol (snd (scan valid (start_lexer (ws @ LBRACE # HASH # rest)))) =
        Some COMMENT) =
    (valid CONTENT \<and> finds_closer rest)"
  using comment_loop_finds_closer [of "\<lparr>unread = rest, position = length ws + 2,
      token_start = length ws, token_end = None, result_symbol = None\<rparr>"]
    comment_loop_emits [of "\<lparr>unread = rest, position = length ws + 2,
      token_start = length ws, token_end = None, result_symbol = None\<rparr>"]
  by (auto simp: scan_brace_hash [OF assms])

text \<open>The definitions a run of the scanner on a concrete input unfolds.\<close>

lemmas run_defs = scan_def html_block_def content_block_def comment_block_def
  eat_whitespace.simps html_loop.simps content_loop.simps comment_loop.simps
  lookahead_def lexer_advance_def advance_def mark_end_def start_lexer_def
  iswspace_def codepoints_def span_def

section \<open>The claims\<close>

subsection \<open>Token-kind ordinals\<close>

text \<open>
  C7, as the code has it: the enumeration \<^verbatim>\<open>TokenType\<close> has exactly three members,
  and their ordinal values follow the declaration, CONTENT = 0, COMMENT = 1 and
  HTML_CONTENT = 2.
\<close>

theorem token_type_ordinals:
  "(UNIV :: TokenType set) = {CONTENT, COMMENT, HTML_CONTENT} \<and>
   card (UNIV :: TokenType set) = 3 \<and>
   ordinal CONTENT = 0 \<and> ordinal COMMENT = 1 \<and> ordinal HTML_CONTENT = 2"
proof -
  have univ: "(UNIV :: TokenType set) = {CONTENT, COMMENT, HTML_CONTENT}"
    by (auto intro: TokenType.exhaust)
  then have "card (UNIV :: TokenType set) = card {CONTENT, COMMENT, HTML_CONTENT}"
    by simp
  also have "\<dots> = 3" by simp
  finally show ?thesis using univ by simp
qed

text \<open>
  C7, as the spec states it, asks for the ordinals to rise in the order in which the
  kinds are attempted: HTML_CONTENT, then CONTENT, then COMMENT. They do not:
  HTML_CONTENT has the largest ordinal.
\<close>

theorem ordinals_not_in_priority_order:
  "\<not> (ordinal HTML_CONTENT < ordinal CONTENT \<and> ordinal CONTENT < ordinal COMMENT)"
  by simp

subsection \<open>The HTML_CONTENT block\<close>

text \<open>
  C2: with the HTML-run kind requested and, after the white space, a lookahead that is
  neither \<^verbatim>\<open><\<close> nor \<^verbatim>\<open>{\<close>, the scan consumes and marks the longest run of
  characters before the first \<^verbatim>\<open><\<close>, \<^verbatim>\<open>{\<close> or the end of the input, leaves that
  character unconsumed and emits HTML_CONTENT with the run as its span. When the
  lookahead is \<^verbatim>\<open><\<close> or \<^verbatim>\<open>{\<close> (or the input is exhausted) the block consumes
  nothing and HTML_CONTENT is not emitted. On every lexer state the block succeeds
  exactly when it has consumed a character. The input is text: it holds no NUL
  character, the value the lookahead has at the end of the input.
\<close>

theorem html_run_matcher:
  assumes "valid HTML_CONTENT" and "\<forall>c\<in>set ws. iswspace c"
    and "\<forall>c\<in>set run. c \<noteq> 0 \<and> c \<noteq> LT_SIGN \<and> c \<noteq> LBRACE"
    and "run \<noteq> [] \<longrightarrow> \<not> iswspace (hd run)"
    and "tail = [] \<or> hd tail = LT_SIGN \<or> hd tail = LBRACE"
  shows "(run \<noteq> [] \<longrightarrow>
      scan valid (start_lexer (ws @ run @ tail)) =
        (True, \<lparr>unread = tail, position = length ws + length run,
           token_start = length ws, token_end = Some (length ws + length run),
           result_symbol = Some HTML_CONTENT\<rparr>) \<and>
      span (ws @ run @ tail) (snd (scan valid (start_lexer (ws @ run @ tail)))) = run) \<and>
    (run = [] \<longrightarrow>
      html_block valid (eat_whitespace (start_lexer (ws @ tail))) =
        (False, \<lparr>unread = tail, position = length ws, token_start = length ws,
           token_end = None, result_symbol = None\<rparr>) \<and>
      result_symbol (snd (scan valid (start_lexer (ws @ tail)))) \<noteq> Some HTML_CONTENT) \<and>
    fst (html_block valid l) = (position l < position (snd (html_block valid l)))"
proof (intro conjI impI)
  assume nonempty: "run \<noteq> []"
  let ?l = "\<lparr>unread = run @ tail, position = length ws, token_start = length ws,
      token_end = None, result_symbol = None :: TokenType option\<rparr>"
  have "run @ tail = [] \<or> \<not> iswspace (hd (run @ tail))"
    using nonempty assms(4) by simp
  then have ws: "eat_whitespace (start_lexer (ws @ run @ tail)) = ?l"
    using eat_whitespace_start [OF assms(2), of "run @ tail"] by simp
  have "html_block valid ?l =
      (True, \<lparr>unread = tail, position = length ws + length run,
         token_start = length ws, token_end = Some (length ws + length run),
         result_symbol = Some HTML_CONTENT\<rparr>)"
    using assms(5) by (intro html_block_run assms(1,3) nonempty) auto
  with ws show scan: "scan valid (start_lexer (ws @ run @ tail)) =
      (True, \<lparr>unread = tail, position = length ws + length run,
         token_start = length ws, token_end = Some (length ws + length run),
         result_symbol = Some HTML_CONTENT\<rparr>)"
    by (simp add: scan_def)
  show "span (ws @ run @ tail) (snd (scan valid (start_lexer (ws @ run @ tail)))) = run"
    by (simp add: scan span_token)
next
  assume empty: "run = []"
  let ?l = "\<lparr>unread = tail, position = length ws, token_start = length ws,
      token_end = None, result_symbol = None :: TokenType option\<rparr>"
  have "tail = [] \<or> \<not> iswspace (hd tail)"
    using assms(5) by (auto simp: iswspace_def)
  then have ws: "eat_whitespace (start_lexer (ws @ tail)) = ?l"
    by (rule eat_whitespace_start [OF assms(2)])
  have "lookahead ?l = 0 \<or> lookahead ?l = LT_SIGN \<or> lookahead ?l = LBRACE"
    using assms(5) by (cases tail) (auto simp: lookahead_def)
  then have "html_loop False ?l = (False, ?l)" by (rule html_loop_stop)
  then have "html_block valid ?l = (False, ?l)" by (simp add: html_block_def)
  with ws show declined: "html_block valid (eat_whitespace (start_lexer (ws @ tail))) =
      (False, ?l)"
    by simp
  show "result_symbol (snd (scan valid (start_lexer (ws @ tail)))) \<noteq> Some HTML_CONTENT"
    by (rule scan_never_html) (simp_all add: declined, simp add: ws)
next
  show "fst (html_block valid l) = (position l < position (snd (html_block valid l)))"
    by (rule html_block_consumes)
qed

theorem html_run_matcher_witness:
  "scan (requested [HTML_CONTENT]) (start_lexer (codepoints ''abc<div>'')) =
     (True, \<lparr>unread = codepoints ''<div>'', position = 3, token_start = 0,
        token_end = Some 3, result_symbol = Some HTML_CONTENT\<rparr>) \<and>
   span (codepoints ''abc<div>'')
     (snd (scan (requested [HTML_CONTENT]) (start_lexer (codepoints ''abc<div>'')))) =
     codepoints ''abc'' \<and>
   html_block (requested [HTML_CONTENT])
     (eat_whitespace (start_lexer (codepoints ''{{ x }}''))) =
     (False, \<lparr>unread = codepoints ''{{ x }}'', position = 0, token_start = 0,
        token_end = None, result_symbol = None\<rparr>) \<and>
   result_symbol (snd (scan (requested [HTML_CONTENT])
     (start_lexer (codepoints ''{{ x }}'')))) \<noteq> Some HTML_CONTENT"
  using html_run_matcher [of "requested [HTML_CONTENT]" "[]" "codepoints ''abc''"
      "codepoints ''<div>''" "start_lexer []"]
    html_run_matcher [of "requested [HTML_CONTENT]" "[]" "[]"
      "codepoints ''{{ x }}''" "start_lexer []"]
  by (simp add: codepoints_def iswspace_def span_def)

subsection \<open>Degenerate input\<close>

text \<open>
  C9: whatever kinds are requested, on the empty input and on an input of white space
  only the scan returns \<^verbatim>\<open>false\<close>, having skipped the white space: every character is
  consumed as skipped, no end is marked and no kind is stored. That the scan returns at
  all, on every input, is the termination of the four loops, proved with their
  definitions.
\<close>

theorem whitespace_only_input:
  assumes "\<forall>c\<in>set ws. iswspace c"
  shows "scan valid (start_lexer ws) =
    (False, \<lparr>unread = [], position = length ws, token_start = length ws,
       token_end = None, result_symbol = None\<rparr>)"
proof -
  let ?l = "\<lparr>unread = [], position = length ws, token_start = length ws,
       token_end = None, result_symbol = None :: TokenType option\<rparr>"
  have ws: "eat_whitespace (start_lexer ws) = ?l"
    using eat_whitespace_start [OF assms, of "[]"] by simp
  have la: "lookahead ?l = 0" by (simp add: lookahead_def)
  have "html_loop False ?l = (False, ?l)" using la by (intro html_loop_stop) simp
  then have html: "html_block valid ?l = (False, ?l)" by (simp add: html_block_def)
  have "content_loop False ?l = (False, ?l)" using la by (intro content_loop_stop) simp
  then have content: "content_block valid ?l = (False, ?l)" by (simp add: content_block_def)
  have comment: "comment_block ?l = (False, ?l)" using la by (simp add: comment_block_def)
  show ?thesis by (simp add: scan_def ws html content comment)
qed

theorem whitespace_only_input_witness:
  "scan (requested [HTML_CONTENT, CONTENT]) (start_lexer [32, 9, 10, 13]) =
     (False, \<lparr>unread = [], position = 4, token_start = 4, token_end = None,
        result_symbol = None\<rparr>) \<and>
   scan (requested []) (start_lexer []) =
     (False, \<lparr>unread = [], position = 0, token_start = 0, token_end = None,
        result_symbol = None\<rparr>)"
  using whitespace_only_input [of "[32, 9, 10, 13]" "requested [HTML_CONTENT, CONTENT]"]
    whitespace_only_input [of "[]" "requested []"]
  by (simp add: iswspace_def)

subsection \<open>The comment block\<close>

text \<open>
  C4 asks that a \<^verbatim>\<open>#\<close> in a comment body that is not followed by \<^verbatim>\<open>}\<close> be
  ordinary body text, so that a closer after it is still found. The loop consumes
  the character after such a \<^verbatim>\<open>#\<close> without looking at it, so a closer that begins
  right there is passed over: on \<^verbatim>\<open>#a##}\<close>, which ends with a closer, the scan runs
  to the end of the input and returns \<^verbatim>\<open>false\<close>.
\<close>

theorem comment_closer_after_hash_missed:
  "scan (requested []) (start_lexer (codepoints ''#a##}'')) =
     (False, \<lparr>unread = [], position = 5, token_start = 0, token_end = Some 4,
        result_symbol = None\<rparr>) \<and>
   has_closer (codepoints ''a##}'')"
  by (simp add: run_defs)

subsection \<open>The CONTENT block\<close>

text \<open>
  C1: with the directive-content kind requested (and the HTML_CONTENT block not
  applicable: its kind not requested, or the lookahead \<^verbatim>\<open>{\<close>), the run of content
  stops immediately before the first \<^verbatim>\<open>{\<close> that is followed by \<^verbatim>\<open>{\<close>, \<^verbatim>\<open>%\<close>
  or \<^verbatim>\<open>#\<close>: that \<^verbatim>\<open>{\<close> is consumed but the end of the span is not marked after
  it, so the span is exactly the text before it. A \<^verbatim>\<open>{\<close> followed by any other
  character, or by the end of the input, is part of the span: a run in which every
  \<^verbatim>\<open>{\<close> is such a lone one is emitted whole, up to the end of the input or to \<^verbatim>\<open><\<close>.
  The input is text: it holds no NUL character.
\<close>

theorem directive_content_matcher:
  assumes "valid CONTENT" and "valid HTML_CONTENT \<longrightarrow> hd body = LBRACE"
    and "\<forall>c\<in>set ws. iswspace c"
    and "body \<noteq> []" and "\<not> iswspace (hd body)"
    and "\<forall>c\<in>set body. c \<noteq> 0 \<and> c \<noteq> LT_SIGN"
  shows "(opens_delimiter c \<and> lone_braces (body @ [LBRACE]) \<longrightarrow>
      scan valid (start_lexer (ws @ body @ LBRACE # c # rest)) =
        (True, \<lparr>unread = c # rest, position = length ws + length body + 1,
           token_start = length ws, token_end = Some (length ws + length body),
           result_symbol = Some CONTENT\<rparr>) \<and>
      span (ws @ body @ LBRACE # c # rest)
        (snd (scan valid (start_lexer (ws @ body @ LBRACE # c # rest)))) = body) \<and>
    (lone_braces body \<and> (tail = [] \<or> hd tail = LT_SIGN) \<longrightarrow>
      scan valid (start_lexer (ws @ body @ tail)) =
        (True, \<lparr>unread = tail, position = length ws + length body,
           token_start = length ws, token_end = Some (length ws + length body),
           result_symbol = Some CONTENT\<rparr>) \<and>
      span (ws @ body @ tail) (snd (scan valid (start_lexer (ws @ body @ tail)))) = body)"
proof -
  have start: "eat_whitespace (start_lexer (ws @ body @ t)) =
      \<lparr>unread = body @ t, position = length ws, token_start = length ws,
        token_end = None, result_symbol = None\<rparr>" for t
    using eat_whitespace_start [OF assms(3), of "body @ t"] assms(4,5) by simp
  have html: "html_block valid \<lparr>unread = body @ t, position = length ws,
        token_start = length ws, token_end = None, result_symbol = None\<rparr> =
      (False, \<lparr>unread = body @ t, position = length ws, token_start = length ws,
        token_end = None, result_symbol = None\<rparr>)" for t
    using assms(2,4) by (intro html_block_not_applicable) (cases body, auto simp: lookahead_def)
  have opener: "scan valid (start_lexer (ws @ body @ LBRACE # c # rest)) =
        (True, \<lparr>unread = c # rest, position = length ws + length body + 1,
           token_start = length ws, token_end = Some (length ws + length body),
           result_symbol = Some CONTENT\<rparr>)"
    if "opens_delimiter c" and "lone_braces (body @ [LBRACE])"
  proof -
    have "content_block valid \<lparr>unread = body @ LBRACE # c # rest, position = length ws,
        token_start = length ws, token_end = None, result_symbol = None\<rparr> =
      (True, \<lparr>unread = c # rest, position = length ws + length body + 1,
           token_start = length ws, token_end = Some (length ws + length body),
           result_symbol = None\<rparr>\<lparr>result_symbol := Some CONTENT\<rparr>)"
      using that by (intro content_block_run assms(1,4,6)) (simp_all add: content_loop_opener)
    then show ?thesis
      using start [of "LBRACE # c # rest"] html [of "LBRACE # c # rest"]
      by (simp add: scan_def)
  qed
  have stop: "scan valid (start_lexer (ws @ body @ tail)) =
        (True, \<lparr>unread = tail, position = length ws + length body,
           token_start = length ws, token_end = Some (length ws + length body),
           result_symbol = Some CONTENT\<rparr>)"
    if "lone_braces body" and "tail = [] \<or> hd tail = LT_SIGN"
  proof -
    have lone: "lone_braces (body @ take 1 tail)"
      using that by (cases tail) (auto intro: lone_braces_snoc simp: opens_delimiter_def)
    have "lookahead \<lparr>unread = tail, position = length ws + length body,
        token_start = length ws, token_end = Some (length ws + length body),
        result_symbol = None :: TokenType option\<rparr> = 0 \<or>
      lookahead \<lparr>unread = tail, position = length ws + length body,
        token_start = length ws, token_end = Some (length ws + length body),
        result_symbol = None :: TokenType option\<rparr> = LT_SIGN"
      using that(2) by (cases tail) (auto simp: lookahead_def)
    then have "content_loop True \<lparr>unread = tail, position = length ws + length body,
        token_start = length ws, token_end = Some (length ws + length body),
        result_symbol = None\<rparr> =
      (True, \<lparr>unread = tail, position = length ws + length body,
        token_start = length ws, token_end = Some (length ws + length body),
        result_symbol = None\<rparr>)"
      by (rule content_loop_stop)
    then have "content_block valid \<lparr>unread = body @ tail, position = length ws,
        token_start = length ws, token_end = None, result_symbol = None\<rparr> =
      (True, \<lparr>unread = tail, position = length ws + length body,
           token_start = length ws, token_end = Some (length ws + length body),
           result_symbol = None\<rparr>\<lparr>result_symbol := Some CONTENT\<rparr>)"
      using lone by (intro content_block_run assms(1,4,6))
    then show ?thesis
      using start [of tail] html [of tail] by (simp add: scan_def)
  qed
  show ?thesis
    using opener stop by (simp add: span_token)
qed

theorem directive_content_matcher_witness:
  "scan (requested [CONTENT]) (start_lexer (codepoints ''hello {{'')) =
     (True, \<lparr>unread = codepoints ''{'', position = 7, token_start = 0,
        token_end = Some 6, result_symbol = Some CONTENT\<rparr>) \<and>
   span (codepoints ''hello {{'')
     (snd (scan (requested [CONTENT]) (start_lexer (codepoints ''hello {{'')))) =
     codepoints ''hello '' \<and>
   scan (requested [CONTENT]) (start_lexer (codepoints ''a{b'')) =
     (True, \<lparr>unread = [], position = 3, token_start = 0,
        token_end = Some 3, result_symbol = Some CONTENT\<rparr>) \<and>
   span (codepoints ''a{b'')
     (snd (scan (requested [CONTENT]) (start_lexer (codepoints ''a{b'')))) =
     codepoints ''a{b''"
  using directive_content_matcher [of "requested [CONTENT]" "codepoints ''hello ''" "[]"
      LBRACE "[]" "[]"]
    directive_content_matcher [of "requested [CONTENT]" "codepoints ''a{b''" "[]"
      LBRACE "[]" "[]"]
  by (simp add: codepoints_def iswspace_def opens_delimiter_def span_def)

subsection \<open>What a declining block has consumed\<close>

text \<open>
  C5, as the code has it: the HTML_CONTENT block, when it declines, leaves the lexer
  exactly as it found it. The CONTENT block, when it declines, has consumed either
  nothing or exactly one character: a \<^verbatim>\<open>{\<close> that is followed by \<^verbatim>\<open>{\<close>, \<^verbatim>\<open>%\<close> or
  \<^verbatim>\<open>#\<close>, consumed with the plain \<^verbatim>\<open>advance\<close> and without marking the end of the
  token, so that the COMMENT block then looks at the character after that \<^verbatim>\<open>{\<close>.
\<close>

theorem declining_block_consumption:
  "(\<not> fst (html_block valid l) \<longrightarrow> snd (html_block valid l) = l) \<and>
   (\<not> fst (content_block valid l) \<longrightarrow>
      snd (content_block valid l) =
        (if valid CONTENT \<and> lookahead l = LBRACE \<and> opens_delimiter (lookahead (advance l))
         then advance l else l)) \<and>
   (lookahead l = LBRACE \<longrightarrow>
      unread (advance l) = tl (unread l) \<and> position (advance l) = position l + 1 \<and>
      token_start (advance l) = token_start l \<and> token_end (advance l) = token_end l)"
proof (intro conjI impI)
  assume "\<not> fst (html_block valid l)"
  then show "snd (html_block valid l) = l" by (rule html_block_declines)
next
  assume "\<not> fst (content_block valid l)"
  then show "snd (content_block valid l) =
        (if valid CONTENT \<and> lookahead l = LBRACE \<and> opens_delimiter (lookahead (advance l))
         then advance l else l)"
    by (rule content_block_declines)
qed (auto simp: lexer_ops split: list.splits)

theorem declining_block_consumption_witness:
  "snd (html_block (requested [HTML_CONTENT, CONTENT])
     (start_lexer (codepoints ''{# c #}''))) = start_lexer (codepoints ''{# c #}'') \<and>
   snd (content_block (requested [HTML_CONTENT, CONTENT])
     (start_lexer (codepoints ''{# c #}''))) =
     \<lparr>unread = codepoints ''# c #}'', position = 1, token_start = 0, token_end = None,
       result_symbol = None\<rparr>"
  using declining_block_consumption [of "requested [HTML_CONTENT, CONTENT]"
      "start_lexer (codepoints ''{# c #}'')"]
  by (simp add: run_defs opens_delimiter_def)

text \<open>
  C5, as the spec states it, has every declining matcher leave the read position where
  it found it. On \<^verbatim>\<open>{# c #}\<close> the CONTENT block declines after consuming the
  \<^verbatim>\<open>{\<close>: the position has moved from 0 to 1 and the lookahead from \<^verbatim>\<open>{\<close> to
  \<^verbatim>\<open>#\<close>.
\<close>

theorem content_block_declines_after_consuming:
  "\<not> fst (content_block (requested [CONTENT]) (start_lexer (codepoints ''{# c #}''))) \<and>
   position (start_lexer (codepoints ''{# c #}'')) = 0 \<and>
   lookahead (start_lexer (codepoints ''{# c #}'')) = LBRACE \<and>
   position (snd (content_block (requested [CONTENT])
     (start_lexer (codepoints ''{# c #}'')))) = 1 \<and>
   lookahead (snd (content_block (requested [CONTENT])
     (start_lexer (codepoints ''{# c #}'')))) = HASH"
  by (simp add: run_defs)

subsection \<open>The requested kinds\<close>

text \<open>
  C6: when the scan succeeds, the kind it emits is HTML_CONTENT with HTML_CONTENT
  requested, or CONTENT with CONTENT requested, or COMMENT. The flag of COMMENT is
  never read: the scan is the same whatever that flag is, and with neither of the other
  two kinds requested the scan is the COMMENT block, which looks at nothing but the
  lookahead being \<^verbatim>\<open>#\<close>.
\<close>

theorem requested_set_invariant:
  "(fst (scan valid l) \<longrightarrow>
      result_symbol (snd (scan valid l)) = Some HTML_CONTENT \<and> valid HTML_CONTENT \<or>
      result_symbol (snd (scan valid l)) = Some CONTENT \<and> valid CONTENT \<or>
      result_symbol (snd (scan valid l)) = Some COMMENT) \<and>
   scan (valid(COMMENT := b)) l = scan valid l \<and>
   (\<not> valid HTML_CONTENT \<and> \<not> valid CONTENT \<longrightarrow>
      scan valid l = comment_block (eat_whitespace l)) \<and>
   comment_block l =
     (if lookahead l = HASH then comment_loop (advance l) else (False, l))"
proof (intro conjI impI)
  assume success: "fst (scan valid l)"
  let ?l = "eat_whitespace l"
  consider (html) "fst (html_block valid ?l)"
    | (content) "\<not> fst (html_block valid ?l)" "fst (content_block valid ?l)"
    | (comment) "\<not> fst (html_block valid ?l)" "\<not> fst (content_block valid ?l)"
    by blast
  then show "result_symbol (snd (scan valid l)) = Some HTML_CONTENT \<and> valid HTML_CONTENT \<or>
      result_symbol (snd (scan valid l)) = Some CONTENT \<and> valid CONTENT \<or>
      result_symbol (snd (scan valid l)) = Some COMMENT"
  proof cases
    case html
    then show ?thesis using html_block_emits [of valid ?l] by (simp add: scan_cases)
  next
    case content
    then show ?thesis using content_block_emits [of valid ?l] by (simp add: scan_cases)
  next
    case comment
    then have "scan valid l = comment_block (snd (content_block valid ?l))"
      by (simp add: scan_cases)
    with success show ?thesis by (simp add: comment_block_result)
  qed
next
  show "scan (valid(COMMENT := b)) l = scan valid l"
    by (rule scan_ignores_comment_flag)
next
  assume "\<not> valid HTML_CONTENT \<and> \<not> valid CONTENT"
  then show "scan valid l = comment_block (eat_whitespace l)"
    by (simp add: scan_def html_block_def content_block_def)
next
  show "comment_block l =
     (if lookahead l = HASH then comment_loop (advance l) else (False, l))"
    by (rule comment_block_def)
qed

theorem requested_set_invariant_witness:
  "fst (scan (requested []) (start_lexer (codepoints ''#x#}''))) \<and>
   result_symbol (snd (scan (requested []) (start_lexer (codepoints ''#x#}'')))) =
     Some COMMENT \<and>
   scan (requested []) (start_lexer (codepoints ''#x#}'')) =
     comment_block (eat_whitespace (start_lexer (codepoints ''#x#}'')))"
  using requested_set_invariant [of "requested []" "start_lexer (codepoints ''#x#}'')" True]
  by (simp add: run_defs)

subsection \<open>Comments that end and comments that do not\<close>

text \<open>
  C8: the COMMENT block is reached when neither HTML_CONTENT nor CONTENT is requested.
  Then the input \<^verbatim>\<open># this is a comment #}\<close> is emitted as a COMMENT whose span is the
  whole string, from the opening \<^verbatim>\<open>#\<close> to the closing \<^verbatim>\<open>#}\<close>; and on every input
  that starts with \<^verbatim>\<open>#\<close> and has no closer \<^verbatim>\<open>#}\<close> after it, the scan reads on to the
  end of the input and returns \<^verbatim>\<open>false\<close>, storing no kind. Whatever kinds are requested,
  such an input is never emitted as a COMMENT.
\<close>

theorem comment_success_and_failure:
  assumes "\<not> valid HTML_CONTENT" and "\<not> valid CONTENT"
  shows "scan valid (start_lexer (codepoints ''# this is a comment #}'')) =
      (True, \<lparr>unread = [], position = 22, token_start = 0, token_end = Some 22,
         result_symbol = Some COMMENT\<rparr>) \<and>
    span (codepoints ''# this is a comment #}'')
      (snd (scan valid (start_lexer (codepoints ''# this is a comment #}'')))) =
      codepoints ''# this is a comment #}'' \<and>
    (\<not> has_closer body \<longrightarrow>
      fst (scan valid (start_lexer (HASH # body))) = False \<and>
      result_symbol (snd (scan valid (start_lexer (HASH # body)))) = None \<and>
      \<not> (fst (scan v (start_lexer (HASH # body))) \<and>
        result_symbol (snd (scan v (start_lexer (HASH # body)))) = Some COMMENT))"
proof (intro conjI impI)
  show example: "scan valid (start_lexer (codepoints ''# this is a comment #}'')) =
      (True, \<lparr>unread = [], position = 22, token_start = 0, token_end = Some 22,
         result_symbol = Some COMMENT\<rparr>)"
    using assms by (simp add: run_defs)
  show "span (codepoints ''# this is a comment #}'')
      (snd (scan valid (start_lexer (codepoints ''# this is a comment #}'')))) =
      codepoints ''# this is a comment #}''"
    unfolding example by (simp add: span_def codepoints_def)
next
  assume unterminated: "\<not> has_closer body"
  let ?l = "\<lparr>unread = HASH # body, position = 0, token_start = 0, token_end = None,
      result_symbol = None :: TokenType option\<rparr>"
  have ws: "eat_whitespace (start_lexer (HASH # body)) = ?l"
    using eat_whitespace_start [of "[]" "HASH # body"] by (simp add: iswspace_def)
  have scan: "scan valid (start_lexer (HASH # body)) = comment_block ?l"
    using assms by (simp add: scan_def html_block_def content_block_def ws)
  show failed: "fst (scan valid (start_lexer (HASH # body))) = False"
    using comment_block_no_closer [OF unterminated, of 0 0 None None] by (simp add: scan)
  show "result_symbol (snd (scan valid (start_lexer (HASH # body)))) = None"
    using failed comment_block_result [of ?l] by (simp add: scan)
  show "\<not> (fst (scan v (start_lexer (HASH # body))) \<and>
        result_symbol (snd (scan v (start_lexer (HASH # body)))) = Some COMMENT)"
    using unterminated by (rule scan_hash_no_closer)
qed

theorem comment_success_and_failure_witness:
  "scan (requested [COMMENT]) (start_lexer (codepoints ''# this is a comment #}'')) =
     (True, \<lparr>unread = [], position = 22, token_start = 0, token_end = Some 22,
        result_symbol = Some COMMENT\<rparr>) \<and>
   fst (scan (requested [COMMENT]) (start_lexer (codepoints ''# unterminated''))) = False \<and>
   result_symbol (snd (scan (requested [COMMENT])
     (start_lexer (codepoints ''# unterminated'')))) = None \<and>
   \<not> (fst (scan (requested [HTML_CONTENT]) (start_lexer (codepoints ''# unterminated''))) \<and>
     result_symbol (snd (scan (requested [HTML_CONTENT])
       (start_lexer (codepoints ''# unterminated'')))) = Some COMMENT)"
  using comment_success_and_failure [of "requested [COMMENT]"
      "codepoints '' unterminated''" "requested [HTML_CONTENT]"]
  by (simp add: codepoints_def)

subsection \<open>Priority\<close>

text \<open>
  C3, as the code has it: after the white space is skipped (it is consumed as skipped,
  so the token starts behind it) the blocks are attempted in the order HTML_CONTENT,
  CONTENT, COMMENT, and the first one that succeeds decides the call. The HTML_CONTENT
  block succeeds exactly when its kind is requested and it has consumed at least one
  character; the CONTENT block succeeds exactly when its kind is requested and it has
  consumed at least one character and marked the end of the token after it. If the
  HTML_CONTENT block succeeds the scan returns at once with its result; otherwise, if
  the CONTENT block succeeds, the scan returns with that result; otherwise the result
  is that of the COMMENT block, started where the CONTENT block stopped. In particular,
  with HTML_CONTENT requested and a first character behind the white space that is
  neither \<^verbatim>\<open><\<close> nor \<^verbatim>\<open>{\<close>, HTML_CONTENT is emitted, whether or not CONTENT is
  requested too.
\<close>

theorem scan_priority:
  assumes "\<forall>c\<in>set ws. iswspace c" and "rest = [] \<or> \<not> iswspace (hd rest)"
    and "l = \<lparr>unread = rest, position = length ws, token_start = length ws,
      token_end = None, result_symbol = None\<rparr>"
  shows "(fst (html_block valid l) =
      (valid HTML_CONTENT \<and> position l < position (snd (html_block valid l)))) \<and>
    (fst (content_block valid l) =
      (valid CONTENT \<and> token_end (snd (content_block valid l)) \<noteq> None)) \<and>
    (fst (html_block valid l) \<longrightarrow>
      scan valid (start_lexer (ws @ rest)) = html_block valid l \<and>
      result_symbol (snd (scan valid (start_lexer (ws @ rest)))) = Some HTML_CONTENT) \<and>
    (\<not> fst (html_block valid l) \<and> fst (content_block valid l) \<longrightarrow>
      scan valid (start_lexer (ws @ rest)) = content_block valid l \<and>
      result_symbol (snd (scan valid (start_lexer (ws @ rest)))) = Some CONTENT) \<and>
    (\<not> fst (html_block valid l) \<and> \<not> fst (content_block valid l) \<longrightarrow>
      scan valid (start_lexer (ws @ rest)) =
        comment_block (snd (content_block valid l)) \<and>
      result_symbol (snd (scan valid (start_lexer (ws @ rest)))) =
        (if fst (scan valid (start_lexer (ws @ rest))) then Some COMMENT else None)) \<and>
    (valid HTML_CONTENT \<and> rest \<noteq> [] \<and> hd rest \<noteq> 0 \<and> hd rest \<noteq> LT_SIGN \<and>
     hd rest \<noteq> LBRACE \<longrightarrow>
      fst (scan valid (start_lexer (ws @ rest))) \<and>
      result_symbol (snd (scan valid (start_lexer (ws @ rest)))) = Some HTML_CONTENT \<and>
      token_start (snd (scan valid (start_lexer (ws @ rest)))) = length ws)"
proof -
  have ws: "eat_whitespace (start_lexer (ws @ rest)) = l"
    using eat_whitespace_start [OF assms(1,2)] assms(3) by simp
  have html_success: "fst (html_block valid l) =
      (valid HTML_CONTENT \<and> position l < position (snd (html_block valid l)))"
    using html_block_consumes [of valid l] html_block_emits [of valid l] by blast
  have content_success: "fst (content_block valid l) =
      (valid CONTENT \<and> token_end (snd (content_block valid l)) \<noteq> None)"
    by (rule content_block_marks) (simp add: assms(3))
  have html: "scan valid (start_lexer (ws @ rest)) = html_block valid l \<and>
      result_symbol (snd (scan valid (start_lexer (ws @ rest)))) = Some HTML_CONTENT"
    if "fst (html_block valid l)"
    using that html_block_emits [of valid l] by (simp add: scan_cases ws)
  have content: "scan valid (start_lexer (ws @ rest)) = content_block valid l \<and>
      result_symbol (snd (scan valid (start_lexer (ws @ rest)))) = Some CONTENT"
    if "\<not> fst (html_block valid l) \<and> fst (content_block valid l)"
    using that content_block_emits [of valid l] by (simp add: scan_cases ws)
  have comment: "scan valid (start_lexer (ws @ rest)) =
        comment_block (snd (content_block valid l)) \<and>
      result_symbol (snd (scan valid (start_lexer (ws @ rest)))) =
        (if fst (scan valid (start_lexer (ws @ rest))) then Some COMMENT else None)"
    if none: "\<not> fst (html_block valid l) \<and> \<not> fst (content_block valid l)"
  proof -
    have scan: "scan valid (start_lexer (ws @ rest)) =
        comment_block (snd (content_block valid l))"
      using none by (simp add: scan_cases ws)
    have "result_symbol (snd (content_block valid l)) = None"
      using none content_block_declines_result [of valid l] by (simp add: assms(3))
    then show ?thesis by (simp add: scan comment_block_result)
  qed
  have plain: "fst (scan valid (start_lexer (ws @ rest))) \<and>
      result_symbol (snd (scan valid (start_lexer (ws @ rest)))) = Some HTML_CONTENT \<and>
      token_start (snd (scan valid (start_lexer (ws @ rest)))) = length ws"
    if letter: "valid HTML_CONTENT \<and> rest \<noteq> [] \<and> hd rest \<noteq> 0 \<and> hd rest \<noteq> LT_SIGN \<and>
     hd rest \<noteq> LBRACE"
  proof -
    have success: "fst (html_block valid l)"
      using letter by (intro html_block_plain) (cases rest, simp_all add: assms(3) lookahead_def)+
    have "token_start (snd (html_block valid l)) = length ws"
      using html_block_token_start [of valid l] by (simp add: assms(3))
    moreover have "fst (scan valid (start_lexer (ws @ rest)))"
      using success html [OF success] by metis
    moreover have "result_symbol (snd (scan valid (start_lexer (ws @ rest)))) =
        Some HTML_CONTENT"
      using html [OF success] by blast
    moreover have "scan valid (start_lexer (ws @ rest)) = html_block valid l"
      using html [OF success] by blast
    ultimately show ?thesis by metis
  qed
  show ?thesis
    using html_success content_success html content comment plain by blast
qed

theorem scan_priority_witness:
  "scan (requested [HTML_CONTENT, CONTENT]) (start_lexer (codepoints ''  abc {{'')) =
     (True, \<lparr>unread = codepoints ''{{'', position = 6, token_start = 2,
        token_end = Some 6, result_symbol = Some HTML_CONTENT\<rparr>) \<and>
   scan (requested [HTML_CONTENT, CONTENT]) (start_lexer (codepoints ''  {x <'')) =
     (True, \<lparr>unread = codepoints ''<'', position = 5, token_start = 2,
        token_end = Some 5, result_symbol = Some CONTENT\<rparr>) \<and>
   scan (requested [HTML_CONTENT, CONTENT]) (start_lexer (codepoints ''  {# c #}'')) =
     (True, \<lparr>unread = [], position = 9, token_start = 2,
        token_end = Some 9, result_symbol = Some COMMENT\<rparr>)"
  using scan_priority [where ws = "codepoints ''  ''" and rest = "codepoints ''abc {{''"
      and valid = "requested [HTML_CONTENT, CONTENT]"
      and l = "\<lparr>unread = codepoints ''abc {{'', position = 2, token_start = 2,
        token_end = None, result_symbol = None\<rparr>"]
    scan_priority [where ws = "codepoints ''  ''" and rest = "codepoints ''{x <''"
      and valid = "requested [HTML_CONTENT, CONTENT]"
      and l = "\<lparr>unread = codepoints ''{x <'', position = 2, token_start = 2,
        token_end = None, result_symbol = None\<rparr>"]
    scan_priority [where ws = "codepoints ''  ''" and rest = "codepoints ''{# c #}''"
      and valid = "requested [HTML_CONTENT, CONTENT]"
      and l = "\<lparr>unread = codepoints ''{# c #}'', position = 2, token_start = 2,
        token_end = None, result_symbol = None\<rparr>"]
  by (simp add: run_defs)

text \<open>
  C3, as it is stated, has the first matcher that is requested and consumes at least
  one character decide the kind. On \<^verbatim>\<open>{# c #}\<close> behind two spaces, with CONTENT the
  only kind requested, the HTML_CONTENT block does not run, the CONTENT block is
  requested and consumes one character, the \<^verbatim>\<open>{\<close>, and yet it does not decide: the
  scan emits COMMENT.
\<close>

theorem consuming_block_does_not_decide:
  "requested [CONTENT] CONTENT \<and>
   \<not> fst (html_block (requested [CONTENT])
     (eat_whitespace (start_lexer (codepoints ''  {# c #}'')))) \<and>
   position (eat_whitespace (start_lexer (codepoints ''  {# c #}''))) = 2 \<and>
   position (snd (content_block (requested [CONTENT])
     (eat_whitespace (start_lexer (codepoints ''  {# c #}''))))) = 3 \<and>
   scan (requested [CONTENT]) (start_lexer (codepoints ''  {# c #}'')) =
     (True, \<lparr>unread = [], position = 9, token_start = 2, token_end = Some 9,
        result_symbol = Some COMMENT\<rparr>)"
  by (simp add: run_defs)

subsection \<open>Comments written with their brace\<close>

text \<open>
  C10 has the scan of an input that begins with \<^verbatim>\<open>{#\<close> emit COMMENT exactly when
  CONTENT is requested and a closer \<^verbatim>\<open>#}\<close> exists. The gating by CONTENT is as the
  claim says, but the comment loop passes over a closer that comes right after another
  \<^verbatim>\<open>#\<close>: on \<^verbatim>\<open>{#a##}\<close>, with CONTENT requested and the closer present, the scan
  reads to the end of the input and returns \<^verbatim>\<open>false\<close>.
\<close>

theorem brace_hash_closer_passed_over:
  "requested [CONTENT] CONTENT \<and> has_closer (codepoints ''a##}'') \<and>
   scan (requested [CONTENT]) (start_lexer (codepoints ''{#a##}'')) =
     (False, \<lparr>unread = [], position = 6, token_start = 0, token_end = Some 5,
        result_symbol = None\<rparr>)"
  by (simp add: run_defs)

end
